theory Spec2Isabelle
  imports Main
begin

section \<open>The LIRC controller of homebridge-lirc-tv (src/lirc.ts)\<close>

text \<open>
  The controller turns a list of keys into a chain of promises, one per key. A key that
  starts with \<^verbatim>\<open>DELAY|\<close> only starts a timer; every other key opens a TCP socket to
  the LIRC daemon, writes one \<^verbatim>\<open>SEND_ONCE\<close> line, ends the socket and starts the
  configured settle timer.

  The embedding is a state-passing one. The state holds a clock in milliseconds, the
  number of sockets and of timers created so far, and the trace of everything the code
  did to a collaborator (logger, socket, timer), each entry stamped with the clock. What
  the network and the timers do is not decided by the code: it is read from a
  \<open>world\<close>, which gives the fate of every socket and, for every timer, the age of
  the event loop's cached time at its start and the lateness of its callback.

  Strings are lists of characters; a character stands for the UTF-16 code unit of the
  same number, so the model covers the code units up to U+00FF. Numbers are the integers
  and NaN (\<open>None\<close>); fractional and infinite values are outside the model.
\<close>

subsection \<open>JavaScript strings and numbers\<close>

type_synonym number = "int option"

definition DELAY_INDENTIFIER :: string where
  "DELAY_INDENTIFIER = ''DELAY|''"

text \<open>\<^verbatim>\<open>String.prototype.startsWith\<close>.\<close>

fun startsWith :: "string \<Rightarrow> string \<Rightarrow> bool" where
  "startsWith s [] = True"
| "startsWith [] (p # ps) = False"
| "startsWith (c # cs) (p # ps) = (c = p \<and> startsWith cs ps)"

text \<open>
  \<^verbatim>\<open>String.prototype.replace\<close> with a string pattern: the first occurrence of the
  pattern, searched from the left, is replaced; a string without the pattern is returned
  as it is. (The replacement is inserted literally; the code only ever passes the empty
  string, which has no \<^verbatim>\<open>$\<close> patterns.)
\<close>

fun replace :: "string \<Rightarrow> string \<Rightarrow> string \<Rightarrow> string" where
  "replace [] pat rep = (if pat = [] then rep else [])"
| "replace (c # cs) pat rep =
     (if startsWith (c # cs) pat then rep @ drop (length pat) (c # cs)
      else c # replace cs pat rep)"

text \<open>
  The global \<^verbatim>\<open>parseInt(string, radix)\<close> of ECMAScript, step by step: leading white
  space is dropped, a sign is read, radix 0 (also: no radix given) means 10, a
  \<^verbatim>\<open>0x\<close> or \<^verbatim>\<open>0X\<close> prefix switches to 16 when the radix is 0 or 16, the longest
  run of digits of the radix is the numeral, and an empty run gives NaN. White space, in
  the range of code units modelled: TAB, LF, VT, FF, CR, SP and NBSP.
\<close>

definition isWhiteSpace :: "char \<Rightarrow> bool" where
  "isWhiteSpace c \<longleftrightarrow>
     c \<in> set [CHR 0x09, CHR 0x0A, CHR 0x0B, CHR 0x0C, CHR 0x0D, CHR 0x20, CHR 0xA0]"

definition digitValue :: "char \<Rightarrow> nat option" where
  "digitValue c =
     (let n = (of_char c :: nat) in
      if 48 \<le> n \<and> n \<le> 57 then Some (n - 48)
      else if 97 \<le> n \<and> n \<le> 122 then Some (n - 87)
      else if 65 \<le> n \<and> n \<le> 90 then Some (n - 55)
      else None)"

definition isRadixDigit :: "nat \<Rightarrow> char \<Rightarrow> bool" where
  "isRadixDigit R c = (case digitValue c of Some v \<Rightarrow> v < R | None \<Rightarrow> False)"

definition radixValue :: "nat \<Rightarrow> string \<Rightarrow> nat" where
  "radixValue R Z =
     foldl (\<lambda>acc c. case digitValue c of Some v \<Rightarrow> acc * R + v | None \<Rightarrow> acc) 0 Z"

definition parseInt :: "string \<Rightarrow> nat \<Rightarrow> number" where
  "parseInt inputString radix =
     (let S = dropWhile isWhiteSpace inputString;
          sign = (if S \<noteq> [] \<and> hd S = CHR ''-'' then - 1 else 1 :: int);
          S = (if S \<noteq> [] \<and> (hd S = CHR ''+'' \<or> hd S = CHR ''-'') then tl S else S);
          stripPrefix = (radix = 0 \<or> radix = 16);
          R = (if radix = 0 then 10 else radix)
      in if radix \<noteq> 0 \<and> (radix < 2 \<or> 36 < radix) then None
         else
           let hex = (stripPrefix \<and> (take 2 S = ''0x'' \<or> take 2 S = ''0X''));
               S = (if hex then drop 2 S else S);
               R = (if hex then 16 else R);
               Z = takeWhile (isRadixDigit R) S
           in if Z = [] then None else Some (sign * int (radixValue R Z)))"

text \<open>
  Whether \<^verbatim>\<open>parseInt\<close> without a radix reads a string as hexadecimal: after the white
  space and the sign it starts with \<^verbatim>\<open>0x\<close> or \<^verbatim>\<open>0X\<close>.
\<close>

definition hex_prefixed :: "string \<Rightarrow> bool" where
  "hex_prefixed inputString =
     (let S = dropWhile isWhiteSpace inputString;
          S = (if S \<noteq> [] \<and> (hd S = CHR ''+'' \<or> hd S = CHR ''-'') then tl S else S)
      in take 2 S = ''0x'' \<or> take 2 S = ''0X'')"



subsection \<open>Timers\<close>

text \<open>
  Node's \<^verbatim>\<open>setTimeout(callback, delay)\<close>: a delay that is NaN, below 1 or above
  \<^verbatim>\<open>TIMEOUT_MAX\<close> (2^31 - 1) is set to 1. The timer is started at the event loop's
  cached time, which can be older than the call, and the callback runs once that many
  milliseconds have passed since the cached time (and not before the caller has
  returned), or later.
\<close>

definition TIMEOUT_MAX :: int where
  "TIMEOUT_MAX = 2147483647"

definition timer_after :: "number \<Rightarrow> nat" where
  "timer_after delay =
     (case delay of
        Some after \<Rightarrow> if 1 \<le> after \<and> after \<le> TIMEOUT_MAX then nat after else 1
      | None \<Rightarrow> 1)"

subsection \<open>Collaborators: logger, sockets, timers\<close>

record socket_error =
  message :: string
  code :: string

datatype log_line =
    Info_Delaying number      \<comment> \<open>\<^verbatim>\<open>log.info(`Delaying for ${delayTimeout}ms`)\<close>\<close>
  | Info_Sending string       \<comment> \<open>\<^verbatim>\<open>log.info(`Sending command to LIRC: ${requestBody}`)\<close>\<close>
  | Error_Message string      \<comment> \<open>\<^verbatim>\<open>log.error(error.message)\<close>\<close>

datatype event =
    Log log_line
  | NetConnect nat string nat   \<comment> \<open>socket, host, port: \<^verbatim>\<open>net.connect({host, port}, ...)\<close>\<close>
  | SocketWrite nat string      \<comment> \<open>socket, data: \<^verbatim>\<open>client.write(...)\<close>\<close>
  | SocketEnd nat               \<comment> \<open>socket: \<^verbatim>\<open>client.end()\<close>\<close>
  | SetTimeout nat number       \<comment> \<open>timer, delay: \<^verbatim>\<open>setTimeout(resolve, ...)\<close>\<close>

type_synonym trace = "(nat \<times> event) list"

text \<open>
  What a socket does after \<^verbatim>\<open>net.connect\<close>: it emits \<^verbatim>\<open>'error'\<close> without ever
  connecting, or it emits \<^verbatim>\<open>'connect'\<close> and then perhaps \<^verbatim>\<open>'error'\<close>, or it
  emits neither. The numbers are milliseconds: from the call to the first event, and from
  \<^verbatim>\<open>'connect'\<close> to the later \<^verbatim>\<open>'error'\<close>.
\<close>

datatype socket_fate =
    Refused nat socket_error
  | Established nat "(nat \<times> socket_error) option"
  | Stalled

record world =
  socket_fate :: "nat \<Rightarrow> socket_fate"   \<comment> \<open>by socket\<close>
  loop_age :: "nat \<Rightarrow> nat"               \<comment> \<open>by timer: how old the cached time is at its start\<close>
  timer_lag :: "nat \<Rightarrow> nat"              \<comment> \<open>by timer: how late its callback runs\<close>

text \<open>
  What a rejected promise carries: the argument of a socket's \<^verbatim>\<open>'error'\<close> event, or
  the \<^verbatim>\<open>RangeError\<close> (\<^verbatim>\<open>ERR_SOCKET_BAD_PORT\<close>) that \<^verbatim>\<open>net.connect\<close> throws for a
  port that is not legal.
\<close>

datatype error = Socket_Error socket_error | Bad_Port nat

record state =
  clock :: nat
  sockets :: nat       \<comment> \<open>sockets created so far\<close>
  timers :: nat        \<comment> \<open>timers started so far\<close>
  trace :: trace       \<comment> \<open>oldest first\<close>
  stray :: trace       \<comment> \<open>what handlers did after their promise was settled\<close>

definition emit :: "event \<Rightarrow> state \<Rightarrow> state" where
  "emit e s = s\<lparr>trace := trace s @ [(clock s, e)]\<rparr>"

definition advance :: "nat \<Rightarrow> state \<Rightarrow> state" where
  "advance ms s = s\<lparr>clock := clock s + ms\<rparr>"

text \<open>
  \<^verbatim>\<open>net.connect\<close> creates a new socket on every call, and throws, before anything is
  sent and before the caller gets the socket, when the port is not an integer from 0 to
  65535 (\<^verbatim>\<open>isLegalPort\<close>).
\<close>

definition isLegalPort :: "nat \<Rightarrow> bool" where
  "isLegalPort p \<longleftrightarrow> p \<le> 65535"

definition net_connect :: "string \<Rightarrow> nat \<Rightarrow> state \<Rightarrow> (error + nat) \<times> state" where
  "net_connect h p s =
     (if isLegalPort p then Inr (sockets s) else Inl (Bad_Port p),
      (emit (NetConnect (sockets s) h p) s)\<lparr>sockets := sockets s + 1\<rparr>)"

text \<open>
  The number of milliseconds after which the callback of a timer runs, counted from the
  call of \<^verbatim>\<open>setTimeout\<close>: the delay as the timer takes it, less the age of the cached
  time, plus the lateness of the callback.
\<close>

definition callback_after :: "world \<Rightarrow> nat \<Rightarrow> number \<Rightarrow> nat" where
  "callback_after w timer delay = (timer_after delay - loop_age w timer) + timer_lag w timer"

text \<open>
  \<^verbatim>\<open>setTimeout\<close> registers a new timer; the first component is the number of
  milliseconds after which its callback runs.
\<close>

definition setTimeout :: "world \<Rightarrow> number \<Rightarrow> state \<Rightarrow> nat \<times> state" where
  "setTimeout w delay s =
     (callback_after w (timers s) delay,
      (emit (SetTimeout (timers s) delay) s)\<lparr>timers := timers s + 1\<rparr>)"

subsection \<open>Promises\<close>

text \<open>
  A promise is settled at most once: fulfilled by \<^verbatim>\<open>resolve\<close>, rejected by
  \<^verbatim>\<open>reject\<close>, or never. In the embedding a promise is the computation that leads
  to its settlement; \<^verbatim>\<open>collector.then(f)\<close> runs \<open>f\<close> once the collector is
  fulfilled and passes a rejection, or a promise that never settles, on.
\<close>

datatype outcome = Fulfilled | Rejected error | Pending

type_synonym promise = "state \<Rightarrow> outcome \<times> state"

definition Promise_resolve :: promise where
  "Promise_resolve s = (Fulfilled, s)"

definition then_promise :: "promise \<Rightarrow> promise \<Rightarrow> promise" where
  "then_promise collector onFulfilled s =
     (case collector s of
        (Fulfilled, s') \<Rightarrow> onFulfilled s'
      | (Rejected error, s') \<Rightarrow> (Rejected error, s')
      | (Pending, s') \<Rightarrow> (Pending, s'))"

subsection \<open>The controller\<close>

record config =
  host :: string
  port :: nat
  remote :: string
  delay :: number

definition requestBody :: "config \<Rightarrow> string \<Rightarrow> string" where
  "requestBody cfg key = ''SEND_ONCE '' @ remote cfg @ '' '' @ key"

definition CRLF :: string where
  "CRLF = [CHR 0x0D, CHR 0x0A]"

text \<open>
  \<^verbatim>\<open>sendCommand(key, resolve, reject)\<close>, run by \<^verbatim>\<open>sendCommands\<close> as the executor of
  a new promise, as the promise it settles. What \<^verbatim>\<open>net.connect\<close> throws leaves the
  executor, so the promise is rejected with it, and neither handler is registered. In
  the second branch the \<^verbatim>\<open>'error'\<close> handler and the settle timer race: the first of
  them settles the promise (when both are due in the same millisecond the timer, which
  the event loop serves first, wins), and a later \<^verbatim>\<open>'error'\<close> is only logged.
\<close>

definition sendCommand :: "config \<Rightarrow> world \<Rightarrow> string \<Rightarrow> promise" where
  "sendCommand cfg w key s =
     (if startsWith key DELAY_INDENTIFIER then
        let delayTimeout = parseInt (replace key DELAY_INDENTIFIER []) 0;
            s = emit (Log (Info_Delaying delayTimeout)) s;
            (due, s) = setTimeout w delayTimeout s
        in (Fulfilled, advance due s)
      else
        let (connected, s) = net_connect (host cfg) (port cfg) s
        in case connected of
             Inl thrown \<Rightarrow> (Rejected thrown, s)
           | Inr client \<Rightarrow>
               (case socket_fate w client of
                  Stalled \<Rightarrow> (Pending, s)
                | Refused ms error \<Rightarrow>
                    let s = advance ms s;
                        s = emit (Log (Error_Message (message error))) s
                    in (Rejected (Socket_Error error), s)
                | Established ms later \<Rightarrow>
                    let s = advance ms s;
                        s = emit (Log (Info_Sending (requestBody cfg key))) s;
                        s = emit (SocketWrite client (requestBody cfg key @ CRLF)) s;
                        s = emit (SocketEnd client) s;
                        (due, s) = setTimeout w (delay cfg) s
                    in (case later of
                          None \<Rightarrow> (Fulfilled, advance due s)
                        | Some (ms', error) \<Rightarrow>
                            if ms' < due then
                              let s = advance ms' s;
                                  s = emit (Log (Error_Message (message error))) s
                              in (Rejected (Socket_Error error), s)
                            else
                              (Fulfilled,
                               (advance due s)\<lparr>stray := stray s @
                                  [(clock s + ms', Log (Error_Message (message error)))]\<rparr>))))"

text \<open>\<^verbatim>\<open>sendCommands(keys)\<close>: the \<^verbatim>\<open>reduce\<close> over the keys, from \<^verbatim>\<open>Promise.resolve()\<close>.\<close>

definition sendCommands :: "config \<Rightarrow> world \<Rightarrow> string list \<Rightarrow> promise" where
  "sendCommands cfg w keys =
     foldl (\<lambda>collector key. then_promise collector (sendCommand cfg w key))
       Promise_resolve keys"

subsection \<open>Observations\<close>

text \<open>What a step or a run added to the trace.\<close>

definition new_events :: "state \<Rightarrow> state \<Rightarrow> trace" where
  "new_events s s' = drop (length (trace s)) (trace s')"

text \<open>The network operations of a trace, the sockets it opened, the delays of the timers it
  started and the errors it logged, each in order.\<close>

fun is_net :: "event \<Rightarrow> bool" where
  "is_net (NetConnect client h p) = True"
| "is_net (SocketWrite client d) = True"
| "is_net (SocketEnd client) = True"
| "is_net (Log l) = False"
| "is_net (SetTimeout timer d) = False"

definition net_events :: "trace \<Rightarrow> event list" where
  "net_events tr = filter is_net (map snd tr)"

fun connections :: "trace \<Rightarrow> nat list" where
  "connections [] = []"
| "connections ((t, NetConnect client h p) # tr) = client # connections tr"
| "connections ((t, e) # tr) = connections tr"

fun timer_requests :: "trace \<Rightarrow> number list" where
  "timer_requests [] = []"
| "timer_requests ((t, SetTimeout timer d) # tr) = d # timer_requests tr"
| "timer_requests ((t, e) # tr) = timer_requests tr"

fun error_lines :: "trace \<Rightarrow> string list" where
  "error_lines [] = []"
| "error_lines ((t, Log (Error_Message m)) # tr) = m # error_lines tr"
| "error_lines ((t, e) # tr) = error_lines tr"

fun writes :: "trace \<Rightarrow> (nat \<times> string) list" where
  "writes [] = []"
| "writes ((t, SocketWrite client d) # tr) = (client, d) # writes tr"
| "writes ((t, e) # tr) = writes tr"

text \<open>Whether a socket of the device connects, and the error a socket emits, if any.\<close>

definition connects :: "config \<Rightarrow> world \<Rightarrow> nat \<Rightarrow> bool" where
  "connects cfg w client \<longleftrightarrow>
     isLegalPort (port cfg) \<and>
     (case socket_fate w client of Established ms later \<Rightarrow> True | _ \<Rightarrow> False)"

definition emitted_error :: "socket_fate \<Rightarrow> socket_error option" where
  "emitted_error fate =
     (case fate of
        Refused ms error \<Rightarrow> Some error
      | Established ms later \<Rightarrow> map_option snd later
      | Stalled \<Rightarrow> None)"

text \<open>
  The error, if any, that the socket opened next reports while the promise of its token
  is still unsettled: before it connects, or after the request was written and before
  the settle timer has run. (A socket that \<^verbatim>\<open>net.connect\<close> refuses to connect for its
  port reports nothing.)
\<close>

definition connection_error :: "config \<Rightarrow> world \<Rightarrow> state \<Rightarrow> socket_error option" where
  "connection_error cfg w s =
     (if \<not> isLegalPort (port cfg) then None
      else
        case socket_fate w (sockets s) of
          Refused ms error \<Rightarrow> Some error
        | Established ms later \<Rightarrow>
            (case later of
               None \<Rightarrow> None
             | Some (ms', error) \<Rightarrow>
                 if ms' < callback_after w (timers s) (delay cfg) then Some error
                 else None)
        | Stalled \<Rightarrow> None)"

text \<open>
  The request lines of the Send tokens of a key list, and the relation between the states
  before and after a run that numbers its sockets: the trace was extended, the sockets
  opened are the next ones in order, the sockets written to are those of them that
  connected, and every write is a request line of the run.
\<close>

definition request_lines :: "config \<Rightarrow> string list \<Rightarrow> string set" where
  "request_lines cfg keys =
     (\<lambda>key. requestBody cfg key @ CRLF) ` {key \<in> set keys. \<not> startsWith key DELAY_INDENTIFIER}"

definition numbered :: "config \<Rightarrow> world \<Rightarrow> string list \<Rightarrow> state \<Rightarrow> state \<Rightarrow> bool" where
  "numbered cfg w keys s s' \<longleftrightarrow>
     trace s' = trace s @ new_events s s' \<and>
     sockets s \<le> sockets s' \<and>
     connections (new_events s s') = [sockets s..<sockets s'] \<and>
     map fst (writes (new_events s s')) = filter (connects cfg w) [sockets s..<sockets s'] \<and>
     snd ` set (writes (new_events s s')) \<subseteq> request_lines cfg keys"

text \<open>
  How a step or a run ends when it is rejected. Either the port is legal, the error is the
  one that the socket opened last emitted, and the last thing done was to log its
  message; or the port is not legal, the error is the one that \<^verbatim>\<open>net.connect\<close> threw
  for it, and the last thing done was that call of \<^verbatim>\<open>net.connect\<close>.
\<close>

definition blamed :: "config \<Rightarrow> world \<Rightarrow> state \<Rightarrow> state \<Rightarrow> outcome \<Rightarrow> bool" where
  "blamed cfg w s s' r \<longleftrightarrow>
     sockets s \<le> sockets s' \<and>
     (case r of
        Rejected (Socket_Error error) \<Rightarrow>
          isLegalPort (port cfg) \<and>
          sockets s < sockets s' \<and>
          emitted_error (socket_fate w (sockets s' - 1)) = Some error \<and>
          last (trace s') = (clock s', Log (Error_Message (message error)))
      | Rejected (Bad_Port p) \<Rightarrow>
          \<not> isLegalPort (port cfg) \<and>
          p = port cfg \<and>
          sockets s < sockets s' \<and>
          last (trace s') = (clock s', NetConnect (sockets s' - 1) (host cfg) (port cfg))
      | _ \<Rightarrow> True)"

subsection \<open>Order and timing\<close>

text \<open>
  Deadlines in a trace. An entry may set a deadline (\<open>due\<close>); the trace keeps the
  deadlines when every later entry of the kind \<open>q\<close> comes at or after each deadline
  set before it.
\<close>

fun kept :: "(nat \<times> event \<Rightarrow> nat option) \<Rightarrow> (event \<Rightarrow> bool) \<Rightarrow> trace \<Rightarrow> bool" where
  "kept due q [] = True"
| "kept due q (x # tr) =
     ((case due x of
         Some deadline \<Rightarrow> list_all (\<lambda>y. q (snd y) \<longrightarrow> deadline \<le> fst y) tr
       | None \<Rightarrow> True) \<and>
      kept due q tr)"

text \<open>A token begins by opening a connection or by starting a timer.\<close>

fun begins :: "event \<Rightarrow> bool" where
  "begins (NetConnect client h p) = True"
| "begins (SetTimeout timer d) = True"
| "begins (Log l) = False"
| "begins (SocketWrite client d) = False"
| "begins (SocketEnd client) = False"

text \<open>The first thing a token does: it opens a connection, or it logs its delay.\<close>

fun token_first :: "event \<Rightarrow> bool" where
  "token_first (NetConnect client h p) = True"
| "token_first (Log (Info_Delaying d)) = True"
| "token_first (Log (Info_Sending b)) = False"
| "token_first (Log (Error_Message m)) = False"
| "token_first (SetTimeout timer d) = False"
| "token_first (SocketWrite client d) = False"
| "token_first (SocketEnd client) = False"

text \<open>The wait a delay asks for, as a number of milliseconds.\<close>

definition requested_ms :: "number \<Rightarrow> nat" where
  "requested_ms d = (case d of Some ms \<Rightarrow> nat ms | None \<Rightarrow> 0)"

text \<open>
  \<open>waits_kept dur\<close>: after a timer \<open>timer\<close> was started with delay \<open>d\<close>, no
  connection is opened and no timer is started before \<open>dur timer d\<close> milliseconds
  have passed. \<open>settle_kept ms\<close>: after a request was written, no token begins before
  \<open>ms\<close> milliseconds have passed.
\<close>

definition timer_due :: "(nat \<Rightarrow> number \<Rightarrow> nat) \<Rightarrow> nat \<times> event \<Rightarrow> nat option" where
  "timer_due dur x =
     (case snd x of SetTimeout timer d \<Rightarrow> Some (fst x + dur timer d) | _ \<Rightarrow> None)"

definition write_due :: "nat \<Rightarrow> nat \<times> event \<Rightarrow> nat option" where
  "write_due ms x =
     (case snd x of SocketWrite client d \<Rightarrow> Some (fst x + ms) | _ \<Rightarrow> None)"

definition waits_kept :: "(nat \<Rightarrow> number \<Rightarrow> nat) \<Rightarrow> trace \<Rightarrow> bool" where
  "waits_kept dur tr = kept (timer_due dur) begins tr"

definition settle_kept :: "nat \<Rightarrow> trace \<Rightarrow> bool" where
  "settle_kept ms tr = kept (write_due ms) token_first tr"

text \<open>
  \<open>settle_started d\<close>: every write is followed at once, at the same time, by the end
  of its socket and by the start of a timer with delay \<open>d\<close>.
\<close>

fun settled_at :: "number \<Rightarrow> nat \<Rightarrow> nat \<Rightarrow> trace \<Rightarrow> bool" where
  "settled_at d t client ((t1, SocketEnd client1) # (t2, SetTimeout timer d') # tr) =
     (t1 = t \<and> client1 = client \<and> t2 = t \<and> d' = d)"
| "settled_at d t client tr = False"

fun settle_started :: "number \<Rightarrow> trace \<Rightarrow> bool" where
  "settle_started d [] = True"
| "settle_started d ((t, SocketWrite client x) # tr) =
     (settled_at d t client tr \<and> settle_started d tr)"
| "settle_started d ((t, e) # tr) = settle_started d tr"

text \<open>
  The staleness of the event loop's clock in a world: no timer is started at a cached
  time older than \<open>a\<close> ms.
\<close>

definition stale_by :: "world \<Rightarrow> nat \<Rightarrow> bool" where
  "stale_by w a \<longleftrightarrow> (\<forall>timer. loop_age w timer \<le> a)"

text \<open>
  A step or a run is paced when it only added to the trace, nothing it added is stamped
  before its start, the deadlines are kept among what it added, and, if it was fulfilled,
  every deadline it set is over at its end.
\<close>

definition paced ::
  "(nat \<times> event \<Rightarrow> nat option) \<Rightarrow> (event \<Rightarrow> bool) \<Rightarrow> state \<Rightarrow> outcome \<Rightarrow> state \<Rightarrow> bool" where
  "paced due q s r s' \<longleftrightarrow>
     trace s' = trace s @ new_events s s' \<and>
     clock s \<le> clock s' \<and>
     kept due q (new_events s s') \<and>
     (\<forall>y \<in> set (new_events s s'). clock s \<le> fst y) \<and>
     (r = Fulfilled \<longrightarrow>
        (\<forall>x \<in> set (new_events s s'). \<forall>deadline. due x = Some deadline \<longrightarrow> deadline \<le> clock s'))"

text \<open>
  What a trace shows of its tokens, in order: the delay logged by a Delay token, the data
  written by a Send token. \<open>token_deed\<close> is what a key shows when it is run to the
  end.
\<close>

datatype deed = Delayed number | Sent string

fun issued :: "trace \<Rightarrow> deed list" where
  "issued [] = []"
| "issued ((t, Log (Info_Delaying d)) # tr) = Delayed d # issued tr"
| "issued ((t, SocketWrite client d) # tr) = Sent d # issued tr"
| "issued ((t, e) # tr) = issued tr"

definition token_deed :: "config \<Rightarrow> string \<Rightarrow> deed" where
  "token_deed cfg key =
     (if startsWith key DELAY_INDENTIFIER then Delayed (parseInt (drop 6 key) 0)
      else Sent (requestBody cfg key @ CRLF))"

subsection \<open>Shapes of traces\<close>

text \<open>The trace of a token whose socket connected, up to the start of the settle timer.\<close>

definition connected_events :: "config \<Rightarrow> string \<Rightarrow> state \<Rightarrow> nat \<Rightarrow> trace" where
  "connected_events cfg key s ms =
     [(clock s, NetConnect (sockets s) (host cfg) (port cfg)),
      (clock s + ms, Log (Info_Sending (requestBody cfg key))),
      (clock s + ms, SocketWrite (sockets s) (requestBody cfg key @ CRLF)),
      (clock s + ms, SocketEnd (sockets s)),
      (clock s + ms, SetTimeout (timers s) (delay cfg))]"

subsection \<open>A device, a daemon and a fresh controller, for concrete runs\<close>

definition samsung :: config where
  "samsung = \<lparr>host = ''127.0.0.1'', port = 8765, remote = ''samsung'', delay = Some 100\<rparr>"

definition boot :: state where
  "boot = \<lparr>clock = 0, sockets = 0, timers = 0, trace = [], stray = []\<rparr>"

definition ECONNREFUSED :: socket_error where
  "ECONNREFUSED =
     \<lparr>message = ''connect ECONNREFUSED 127.0.0.1:8765'', code = ''ECONNREFUSED''\<rparr>"

text \<open>A daemon that accepts every connection after 3 ms, with punctual timers that are
  started at the current time.\<close>

definition reachable :: world where
  "reachable =
     \<lparr>socket_fate = (\<lambda>client. Established 3 None),
      loop_age = (\<lambda>timer. 0), timer_lag = (\<lambda>timer. 0)\<rparr>"

text \<open>The same daemon, with every timer started at a cached time that is 1 ms old.\<close>

definition stale :: world where
  "stale = reachable\<lparr>loop_age := (\<lambda>timer. 1)\<rparr>"

text \<open>A daemon that is down, and one that refuses the third connection only.\<close>

definition unreachable :: world where
  "unreachable =
     \<lparr>socket_fate = (\<lambda>client. Refused 5 ECONNREFUSED),
      loop_age = (\<lambda>timer. 0), timer_lag = (\<lambda>timer. 0)\<rparr>"

definition third_refused :: world where
  "third_refused =
     \<lparr>socket_fate = (\<lambda>client. if client = 2 then Refused 5 ECONNREFUSED else Established 3 None),
      loop_age = (\<lambda>timer. 0), timer_lag = (\<lambda>timer. 0)\<rparr>"

text \<open>The device configured with a port that is not legal.\<close>

definition misconfigured :: config where
  "misconfigured = samsung\<lparr>port := 65536\<rparr>"

text \<open>Facts for evaluating concrete runs.\<close>

lemmas run_defs =
  sendCommands_def then_promise_def Promise_resolve_def sendCommand_def
  DELAY_INDENTIFIER_def net_connect_def isLegalPort_def setTimeout_def callback_after_def
  emit_def advance_def timer_after_def TIMEOUT_MAX_def requestBody_def CRLF_def
  new_events_def Let_def

lemmas parse_defs =
  parseInt_def isWhiteSpace_def isRadixDigit_def digitValue_def radixValue_def

section \<open>The promise chain\<close>

lemma then_promise_left: "then_promise Promise_resolve f = f"
  by (rule ext) (simp add: then_promise_def Promise_resolve_def)

lemma then_promise_right: "then_promise p Promise_resolve = p"
  by (rule ext) (simp add: then_promise_def Promise_resolve_def split: prod.split outcome.split)

lemma then_promise_assoc:
  "then_promise (then_promise p f) g = then_promise p (then_promise f g)"
  by (rule ext) (simp add: then_promise_def split: prod.split outcome.split)

text \<open>A chain built on a collector is the collector followed by the chain built on a
  resolved promise.\<close>

lemma chain_from:
  "foldl (\<lambda>collector key. then_promise collector (f key)) p keys =
   then_promise p (foldl (\<lambda>collector key. then_promise collector (f key)) Promise_resolve keys)"
proof (induction keys rule: rev_induct)
  case Nil
  show ?case by (simp add: then_promise_right)
next
  case (snoc key keys)
  let ?chain = "foldl (\<lambda>collector key. then_promise collector (f key))"
  have "?chain p (keys @ [key]) = then_promise (?chain p keys) (f key)"
    by simp
  also have "\<dots> = then_promise (then_promise p (?chain Promise_resolve keys)) (f key)"
    by (simp only: snoc.IH)
  also have "\<dots> = then_promise p (then_promise (?chain Promise_resolve keys) (f key))"
    by (rule then_promise_assoc)
  also have "\<dots> = then_promise p (?chain Promise_resolve (keys @ [key]))"
    by simp
  finally show ?case .
qed

lemma sendCommands_Nil: "sendCommands cfg w [] = Promise_resolve"
  by (simp add: sendCommands_def)

lemma sendCommands_Cons:
  "sendCommands cfg w (key # keys) =
   then_promise (sendCommand cfg w key) (sendCommands cfg w keys)"
proof -
  let ?chain = "foldl (\<lambda>collector key. then_promise collector (sendCommand cfg w key))"
  have "sendCommands cfg w (key # keys) = ?chain (sendCommand cfg w key) keys"
    by (simp add: sendCommands_def then_promise_left)
  also have "\<dots> = then_promise (sendCommand cfg w key) (?chain Promise_resolve keys)"
    by (rule chain_from)
  finally show ?thesis by (simp only: sendCommands_def)
qed

lemma sendCommands_append:
  "sendCommands cfg w (keys @ keys') =
   then_promise (sendCommands cfg w keys) (sendCommands cfg w keys')"
proof -
  let ?chain = "foldl (\<lambda>collector key. then_promise collector (sendCommand cfg w key))"
  have "sendCommands cfg w (keys @ keys') = ?chain (?chain Promise_resolve keys) keys'"
    by (simp add: sendCommands_def)
  also have "\<dots> = then_promise (?chain Promise_resolve keys) (?chain Promise_resolve keys')"
    by (rule chain_from)
  finally show ?thesis by (simp only: sendCommands_def)
qed

text \<open>The chain read token by token: the rest runs only after a fulfilled head.\<close>

lemma sendCommands_step:
  "sendCommands cfg w (key # keys) s =
     (case sendCommand cfg w key s of
        (Fulfilled, s') \<Rightarrow> sendCommands cfg w keys s'
      | (Rejected error, s') \<Rightarrow> (Rejected error, s')
      | (Pending, s') \<Rightarrow> (Pending, s'))"
  by (simp add: sendCommands_Cons then_promise_def)

section \<open>One token\<close>

lemma replace_prefix: "startsWith s pat \<Longrightarrow> replace s pat [] = drop (length pat) s"
  by (cases s) (auto split: if_splits)

lemma length_DELAY: "length DELAY_INDENTIFIER = 6"
  by (simp add: DELAY_INDENTIFIER_def)

lemma sendCommand_delay:
  assumes "startsWith key DELAY_INDENTIFIER"
  shows "sendCommand cfg w key s =
    (Fulfilled,
     s\<lparr>clock := clock s + callback_after w (timers s) (parseInt (drop 6 key) 0),
       timers := Suc (timers s),
       trace := trace s @
         [(clock s, Log (Info_Delaying (parseInt (drop 6 key) 0))),
          (clock s, SetTimeout (timers s) (parseInt (drop 6 key) 0))]\<rparr>)"
  using assms
  by (simp add: sendCommand_def replace_prefix length_DELAY setTimeout_def emit_def
      advance_def Let_def)

lemma sendCommand_thrown:
  assumes "\<not> startsWith key DELAY_INDENTIFIER" and "\<not> isLegalPort (port cfg)"
  shows "sendCommand cfg w key s =
    (Rejected (Bad_Port (port cfg)),
     s\<lparr>sockets := Suc (sockets s),
       trace := trace s @ [(clock s, NetConnect (sockets s) (host cfg) (port cfg))]\<rparr>)"
  using assms
  by (simp add: sendCommand_def net_connect_def emit_def)

lemma sendCommand_stalled:
  assumes "\<not> startsWith key DELAY_INDENTIFIER" and "isLegalPort (port cfg)"
    and "socket_fate w (sockets s) = Stalled"
  shows "sendCommand cfg w key s =
    (Pending,
     s\<lparr>sockets := Suc (sockets s),
       trace := trace s @ [(clock s, NetConnect (sockets s) (host cfg) (port cfg))]\<rparr>)"
  using assms
  by (simp add: sendCommand_def net_connect_def emit_def)

lemma sendCommand_refused:
  assumes "\<not> startsWith key DELAY_INDENTIFIER" and "isLegalPort (port cfg)"
    and "socket_fate w (sockets s) = Refused ms error"
  shows "sendCommand cfg w key s =
    (Rejected (Socket_Error error),
     s\<lparr>clock := clock s + ms,
       sockets := Suc (sockets s),
       trace := trace s @
         [(clock s, NetConnect (sockets s) (host cfg) (port cfg)),
          (clock s + ms, Log (Error_Message (message error)))]\<rparr>)"
  using assms
  by (simp add: sendCommand_def net_connect_def emit_def advance_def)

lemma sendCommand_established:
  assumes "\<not> startsWith key DELAY_INDENTIFIER" and "isLegalPort (port cfg)"
    and "socket_fate w (sockets s) = Established ms None"
  shows "sendCommand cfg w key s =
    (Fulfilled,
     s\<lparr>clock := clock s + ms + callback_after w (timers s) (delay cfg),
       sockets := Suc (sockets s),
       timers := Suc (timers s),
       trace := trace s @ connected_events cfg key s ms\<rparr>)"
  using assms
  by (simp add: sendCommand_def net_connect_def emit_def advance_def setTimeout_def
      connected_events_def)

lemma sendCommand_early_error:
  assumes "\<not> startsWith key DELAY_INDENTIFIER" and "isLegalPort (port cfg)"
    and "socket_fate w (sockets s) = Established ms (Some (ms', error))"
    and "ms' < callback_after w (timers s) (delay cfg)"
  shows "sendCommand cfg w key s =
    (Rejected (Socket_Error error),
     s\<lparr>clock := clock s + ms + ms',
       sockets := Suc (sockets s),
       timers := Suc (timers s),
       trace := trace s @ connected_events cfg key s ms @
         [(clock s + ms + ms', Log (Error_Message (message error)))]\<rparr>)"
  using assms
  by (simp add: sendCommand_def net_connect_def emit_def advance_def setTimeout_def
      connected_events_def)

lemma sendCommand_late_error:
  assumes "\<not> startsWith key DELAY_INDENTIFIER" and "isLegalPort (port cfg)"
    and "socket_fate w (sockets s) = Established ms (Some (ms', error))"
    and "\<not> ms' < callback_after w (timers s) (delay cfg)"
  shows "sendCommand cfg w key s =
    (Fulfilled,
     s\<lparr>clock := clock s + ms + callback_after w (timers s) (delay cfg),
       sockets := Suc (sockets s),
       timers := Suc (timers s),
       trace := trace s @ connected_events cfg key s ms,
       stray := stray s @ [(clock s + ms + ms', Log (Error_Message (message error)))]\<rparr>)"
  using assms
  by (simp add: sendCommand_def net_connect_def emit_def advance_def setTimeout_def
      connected_events_def)

lemma run_induct:
  assumes run: "sendCommands cfg w keys s = (r, s')"
    and refl: "\<And>s. P s Fulfilled s"
    and step: "\<And>key s r s'. key \<in> set keys \<Longrightarrow> sendCommand cfg w key s = (r, s') \<Longrightarrow> P s r s'"
    and trans: "\<And>s s1 r s2. P s Fulfilled s1 \<Longrightarrow> P s1 r s2 \<Longrightarrow> P s r s2"
  shows "P s r s'"
  using run step
proof (induction keys arbitrary: s)
  case Nil
  then show ?case by (simp add: sendCommands_Nil Promise_resolve_def refl)
next
  case (Cons key keys)
  obtain r1 s1 where head: "sendCommand cfg w key s = (r1, s1)"
    by (cases "sendCommand cfg w key s")
  have first: "P s r1 s1"
    using head by (rule Cons.prems(2) [of key, simplified])
  show ?case
  proof (cases r1)
    case Fulfilled
    with head Cons.prems(1) have "sendCommands cfg w keys s1 = (r, s')"
      by (simp add: sendCommands_step)
    then have "P s1 r s'"
      by (rule Cons.IH) (rule Cons.prems(2), simp_all)
    with first Fulfilled show ?thesis
      by (auto intro: trans)
  next
    case (Rejected error)
    with head Cons.prems(1) first show ?thesis
      by (simp add: sendCommands_step)
  next
    case Pending
    with head Cons.prems(1) first show ?thesis
      by (simp add: sendCommands_step)
  qed
qed

text \<open>The seven ways a token can go.\<close>

lemma sendCommand_cases:
  obtains
    (delay) "startsWith key DELAY_INDENTIFIER"
  | (thrown) "\<not> startsWith key DELAY_INDENTIFIER" "\<not> isLegalPort (port cfg)"
  | (stalled) "\<not> startsWith key DELAY_INDENTIFIER" "isLegalPort (port cfg)"
      "socket_fate w (sockets s) = Stalled"
  | (refused) ms error where "\<not> startsWith key DELAY_INDENTIFIER" "isLegalPort (port cfg)"
      "socket_fate w (sockets s) = Refused ms error"
  | (established) ms where "\<not> startsWith key DELAY_INDENTIFIER" "isLegalPort (port cfg)"
      "socket_fate w (sockets s) = Established ms None"
  | (early_error) ms ms' error where "\<not> startsWith key DELAY_INDENTIFIER"
      "isLegalPort (port cfg)"
      "socket_fate w (sockets s) = Established ms (Some (ms', error))"
      "ms' < callback_after w (timers s) (delay cfg)"
  | (late_error) ms ms' error where "\<not> startsWith key DELAY_INDENTIFIER"
      "isLegalPort (port cfg)"
      "socket_fate w (sockets s) = Established ms (Some (ms', error))"
      "\<not> ms' < callback_after w (timers s) (delay cfg)"
proof (cases "startsWith key DELAY_INDENTIFIER")
  case True
  then show ?thesis by (rule delay)
next
  case False
  show ?thesis
  proof (cases "isLegalPort (port cfg)")
    case illegal: False
    with False show ?thesis by (rule thrown)
  next
    case legal: True
    show ?thesis
    proof (cases "socket_fate w (sockets s)")
      case (Refused ms error)
      with False legal show ?thesis by (rule refused)
    next
      case (Established ms later)
      show ?thesis
      proof (cases later)
        case None
        with False legal Established show ?thesis by (auto intro: established)
      next
        case (Some a)
        obtain ms' error where "a = (ms', error)" by (cases a)
        with False legal Established Some show ?thesis
          by (cases "ms' < callback_after w (timers s) (delay cfg)")
             (auto intro: early_error late_error)
      qed
    next
      case Stalled
      with False legal show ?thesis by (rule stalled)
    qed
  qed
qed

lemmas sendCommand_results =
  sendCommand_delay sendCommand_thrown sendCommand_stalled sendCommand_refused
  sendCommand_established sendCommand_early_error sendCommand_late_error

section \<open>Traces of steps and runs\<close>

lemma connections_append: "connections (tr @ tr') = connections tr @ connections tr'"
  by (induction tr rule: connections.induct) simp_all

lemma writes_append: "writes (tr @ tr') = writes tr @ writes tr'"
  by (induction tr rule: writes.induct) simp_all

lemma error_lines_append: "error_lines (tr @ tr') = error_lines tr @ error_lines tr'"
  by (induction tr rule: error_lines.induct) simp_all

lemma new_events_same: "new_events s s = []"
  by (simp add: new_events_def)

lemma new_events_trans:
  assumes "trace s1 = trace s @ new_events s s1" and "trace s2 = trace s1 @ new_events s1 s2"
  shows "new_events s s2 = new_events s s1 @ new_events s1 s2"
    and "trace s2 = trace s @ new_events s s2"
proof -
  have "trace s2 = trace s @ (new_events s s1 @ new_events s1 s2)"
    using assms by simp
  then show "new_events s s2 = new_events s s1 @ new_events s1 s2"
    by (simp add: new_events_def [of s s2])
  then show "trace s2 = trace s @ new_events s s2"
    using \<open>trace s2 = trace s @ (new_events s s1 @ new_events s1 s2)\<close> by simp
qed

text \<open>A token only adds to the trace.\<close>

lemma sendCommand_extends:
  assumes "sendCommand cfg w key s = (r, s')"
  shows "trace s' = trace s @ new_events s s'"
  using assms
  by - (rule sendCommand_cases [where key = key and w = w and s = s and cfg = cfg];
      auto simp: sendCommand_results new_events_def)

lemma sendCommands_extends:
  assumes "sendCommands cfg w keys s = (r, s')"
  shows "trace s' = trace s @ new_events s s'"
  using assms
proof (rule run_induct [where P = "\<lambda>s r s'. trace s' = trace s @ new_events s s'"])
  show "trace s = trace s @ new_events s s" for s :: state
    by (simp add: new_events_same)
  show "trace s' = trace s @ new_events s s'"
    if "sendCommand cfg w key s = (r, s')" for key s r s'
    using that by (rule sendCommand_extends)
  show "trace s2 = trace s @ new_events s s2"
    if "trace s1 = trace s @ new_events s s1" "trace s2 = trace s1 @ new_events s1 s2"
    for s s1 s2 :: state
    using that by (rule new_events_trans)
qed

text \<open>What one token does to the network and to the timers.\<close>

lemma sendCommand_delay_footprint:
  assumes "startsWith key DELAY_INDENTIFIER" and "sendCommand cfg w key s = (r, s')"
  shows "net_events (new_events s s') = []" and "sockets s' = sockets s"
    and "connections (new_events s s') = []" and "writes (new_events s s') = []"
    and "timer_requests (new_events s s') = [parseInt (drop 6 key) 0]"
  using assms
  by (auto simp: sendCommand_delay new_events_def net_events_def)

lemma sendCommand_send_footprint:
  assumes "\<not> startsWith key DELAY_INDENTIFIER" and "sendCommand cfg w key s = (r, s')"
  shows "connections (new_events s s') = [sockets s]" and "sockets s' = Suc (sockets s)"
    and "writes (new_events s s') =
      (if connects cfg w (sockets s) then [(sockets s, requestBody cfg key @ CRLF)] else [])"
    and "net_events (new_events s s') =
      (if connects cfg w (sockets s)
       then [NetConnect (sockets s) (host cfg) (port cfg),
             SocketWrite (sockets s) (requestBody cfg key @ CRLF),
             SocketEnd (sockets s)]
       else [NetConnect (sockets s) (host cfg) (port cfg)])"
    and "timer_requests (new_events s s') = (if connects cfg w (sockets s) then [delay cfg] else [])"
  using assms
  by - ((rule sendCommand_cases [where key = key and w = w and s = s and cfg = cfg];
      auto simp: sendCommand_results new_events_def net_events_def connected_events_def
        connects_def)+)


text \<open>The sockets of a run are numbered on from those the state has; each one that connects
  gets one write, and every write is the request line of a Send token of the run.\<close>

lemma upt_split: "a \<le> b \<Longrightarrow> b \<le> c \<Longrightarrow> [a..<c] = [a..<b] @ [b..<c]"
  using upt_add_eq_append [of a b "c - b"] by simp

lemma numbered_refl: "numbered cfg w keys s s"
  by (simp add: numbered_def new_events_same)

lemma numbered_step:
  assumes "key \<in> set keys" and "sendCommand cfg w key s = (r, s')"
  shows "numbered cfg w keys s s'"
proof (cases "startsWith key DELAY_INDENTIFIER")
  case True
  note sendCommand_extends [OF assms(2)] sendCommand_delay_footprint [OF True assms(2)]
  then show ?thesis
    unfolding numbered_def by simp
next
  case False
  have "requestBody cfg key @ CRLF \<in> request_lines cfg keys"
    using False assms(1) by (auto simp: request_lines_def)
  with sendCommand_extends [OF assms(2)] sendCommand_send_footprint [OF False assms(2)]
  show ?thesis
    unfolding numbered_def by simp
qed

lemma numbered_trans:
  assumes "numbered cfg w keys s s1" and "numbered cfg w keys s1 s2"
  shows "numbered cfg w keys s s2"
proof -
  have ext1: "trace s1 = trace s @ new_events s s1"
    and ext2: "trace s2 = trace s1 @ new_events s1 s2"
    using assms unfolding numbered_def by blast+
  note new = new_events_trans(1) [OF ext1 ext2] and ext = new_events_trans(2) [OF ext1 ext2]
  have le: "sockets s \<le> sockets s1" "sockets s1 \<le> sockets s2"
    using assms unfolding numbered_def by blast+
  have split: "[sockets s..<sockets s2] = [sockets s..<sockets s1] @ [sockets s1..<sockets s2]"
    using le by (rule upt_split)
  have "connections (new_events s s2) = [sockets s..<sockets s2]"
    using assms unfolding numbered_def new split by (simp add: connections_append)
  moreover have "map fst (writes (new_events s s2)) =
      filter (connects cfg w) [sockets s..<sockets s2]"
    using assms unfolding numbered_def new split by (simp add: writes_append)
  moreover have "snd ` set (writes (new_events s s2)) \<subseteq> request_lines cfg keys"
    using assms unfolding numbered_def new by (simp add: writes_append image_Un)
  ultimately show ?thesis
    using ext le unfolding numbered_def by simp
qed

lemma sendCommands_numbered:
  assumes "sendCommands cfg w keys s = (r, s')"
  shows "numbered cfg w keys s s'"
  using assms
  by (rule run_induct [where P = "\<lambda>s r s'. numbered cfg w keys s s'"])
     (auto intro: numbered_refl numbered_step numbered_trans)

section \<open>The empty sequence\<close>

text \<open>
  C8. For the empty command sequence \<open>sendCommands\<close> is fulfilled at once and leaves
  the state as it was: no socket is opened, no timer is started, the clock does not move
  and nothing is added to the trace.
\<close>

theorem empty_sequence_noop:
  "sendCommands cfg w [] s = (Fulfilled, s)"
  by (simp add: sendCommands_Nil Promise_resolve_def)

section \<open>Delay tokens\<close>

text \<open>
  C9. A Delay token cannot make a run fail. A sequence made of Delay tokens only is
  fulfilled, whatever the network does. And wherever a Delay token stands in a sequence,
  its own promise is fulfilled, it logs no error, and the run goes on with the tokens
  after it.
\<close>

theorem delay_cannot_fail:
  "(list_all (\<lambda>key. startsWith key DELAY_INDENTIFIER) keys \<longrightarrow>
      fst (sendCommands cfg w keys s) = Fulfilled) \<and>
   (startsWith key DELAY_INDENTIFIER \<longrightarrow>
      fst (sendCommand cfg w key s) = Fulfilled \<and>
      error_lines (new_events s (snd (sendCommand cfg w key s))) = [] \<and>
      sendCommands cfg w (key # rest) s =
        sendCommands cfg w rest (snd (sendCommand cfg w key s)))"
proof (intro conjI impI)
  assume "list_all (\<lambda>key. startsWith key DELAY_INDENTIFIER) keys"
  then show "fst (sendCommands cfg w keys s) = Fulfilled"
  proof (induction keys arbitrary: s)
    case Nil
    show ?case by (simp add: sendCommands_Nil Promise_resolve_def)
  next
    case (Cons key keys)
    then show ?case
      by (simp add: sendCommands_step sendCommand_delay)
  qed
next
  assume "startsWith key DELAY_INDENTIFIER"
  then show "fst (sendCommand cfg w key s) = Fulfilled"
    and "error_lines (new_events s (snd (sendCommand cfg w key s))) = []"
    and "sendCommands cfg w (key # rest) s =
      sendCommands cfg w rest (snd (sendCommand cfg w key s))"
    by (simp_all add: sendCommands_step sendCommand_delay new_events_def)
qed

theorem delay_cannot_fail_witness:
  "list_all (\<lambda>key. startsWith key DELAY_INDENTIFIER) [''DELAY|250'', ''DELAY|abc'', ''DELAY|''] \<and>
   fst (sendCommands samsung reachable [''DELAY|250'', ''DELAY|abc'', ''DELAY|''] boot) = Fulfilled \<and>
   startsWith ''DELAY|250'' DELAY_INDENTIFIER \<and>
   fst (sendCommand samsung reachable ''DELAY|250'' boot) = Fulfilled \<and>
   error_lines (new_events boot (snd (sendCommand samsung reachable ''DELAY|250'' boot))) = [] \<and>
   sendCommands samsung reachable [''DELAY|250'', ''KEY_POWER''] boot =
     sendCommands samsung reachable [''KEY_POWER'']
       (snd (sendCommand samsung reachable ''DELAY|250'' boot))"
  using delay_cannot_fail [of "[''DELAY|250'', ''DELAY|abc'', ''DELAY|'']" samsung reachable boot
      "''DELAY|250''" "[''KEY_POWER'']"]
  by (simp add: DELAY_INDENTIFIER_def)









section \<open>Send tokens\<close>

text \<open>
  C6. A Delay token performs no network operation: no socket is opened, nothing is
  written or ended. A Send token calls \<^verbatim>\<open>net.connect\<close> exactly once, for a new socket
  (the sockets of a run are numbered on from those opened before, none twice); when that
  socket connects, the network operations of the token are exactly connect, one write
  and end on it, in this order, and the only timer it starts is the settle timer with the
  configured delay; when it does not connect, nothing is written and no timer is started.
\<close>

theorem token_footprint:
  assumes "sendCommand cfg w key s = (r, s')"
    and "sendCommands cfg w keys s0 = (r0, s1)"
  shows
   "(startsWith key DELAY_INDENTIFIER \<longrightarrow>
       net_events (new_events s s') = [] \<and> sockets s' = sockets s) \<and>
    (\<not> startsWith key DELAY_INDENTIFIER \<longrightarrow>
       connections (new_events s s') = [sockets s] \<and>
       sockets s' = Suc (sockets s) \<and>
       timer_requests (new_events s s') = (if connects cfg w (sockets s) then [delay cfg] else []) \<and>
       net_events (new_events s s') =
         (if connects cfg w (sockets s)
          then [NetConnect (sockets s) (host cfg) (port cfg),
                SocketWrite (sockets s) (requestBody cfg key @ CRLF),
                SocketEnd (sockets s)]
          else [NetConnect (sockets s) (host cfg) (port cfg)])) \<and>
    connections (new_events s0 s1) = [sockets s0..<sockets s1]"
proof (intro conjI impI)
  assume delay: "startsWith key DELAY_INDENTIFIER"
  show "net_events (new_events s s') = []" and "sockets s' = sockets s"
    using sendCommand_delay_footprint [OF delay assms(1)] by simp_all
next
  assume send: "\<not> startsWith key DELAY_INDENTIFIER"
  note footprint = sendCommand_send_footprint [OF send assms(1)]
  show "connections (new_events s s') = [sockets s]"
    by (rule footprint)
  show "sockets s' = Suc (sockets s)"
    by (rule footprint)
  show "timer_requests (new_events s s') = (if connects cfg w (sockets s) then [delay cfg] else [])"
    by (rule footprint)
  show "net_events (new_events s s') =
         (if connects cfg w (sockets s)
          then [NetConnect (sockets s) (host cfg) (port cfg),
                SocketWrite (sockets s) (requestBody cfg key @ CRLF),
                SocketEnd (sockets s)]
          else [NetConnect (sockets s) (host cfg) (port cfg)])"
    by (rule footprint)
next
  show "connections (new_events s0 s1) = [sockets s0..<sockets s1]"
    using sendCommands_numbered [OF assms(2)] unfolding numbered_def by blast
qed

theorem token_footprint_witness:
  "startsWith ''DELAY|250'' DELAY_INDENTIFIER \<and>
   sendCommand samsung reachable ''DELAY|250'' boot =
     (Fulfilled,
      \<lparr>clock = 250, sockets = 0, timers = 1,
        trace = [(0, Log (Info_Delaying (Some 250))), (0, SetTimeout 0 (Some 250))],
        stray = []\<rparr>) \<and>
   net_events (new_events boot (snd (sendCommand samsung reachable ''DELAY|250'' boot))) = [] \<and>
   \<not> startsWith ''POWER_ON'' DELAY_INDENTIFIER \<and>
   connects samsung reachable 0 \<and>
   net_events (new_events boot (snd (sendCommand samsung reachable ''POWER_ON'' boot))) =
     [NetConnect 0 ''127.0.0.1'' 8765,
      SocketWrite 0 (''SEND_ONCE samsung POWER_ON'' @ [CHR 0x0D, CHR 0x0A]),
      SocketEnd 0] \<and>
   timer_requests (new_events boot (snd (sendCommand samsung reachable ''POWER_ON'' boot))) =
     [Some 100] \<and>
   connections (new_events boot
     (snd (sendCommands samsung reachable [''POWER_ON'', ''DELAY|250'', ''KEY_MUTE''] boot))) =
     [0, 1]"
  using
    token_footprint [of samsung reachable "''DELAY|250''" boot Fulfilled
      "snd (sendCommand samsung reachable ''DELAY|250'' boot)"
      "[''POWER_ON'', ''DELAY|250'', ''KEY_MUTE'']" boot Fulfilled
      "snd (sendCommands samsung reachable [''POWER_ON'', ''DELAY|250'', ''KEY_MUTE''] boot)"]
    token_footprint [of samsung reachable "''POWER_ON''" boot Fulfilled
      "snd (sendCommand samsung reachable ''POWER_ON'' boot)"
      "[''POWER_ON'', ''DELAY|250'', ''KEY_MUTE'']" boot Fulfilled
      "snd (sendCommands samsung reachable [''POWER_ON'', ''DELAY|250'', ''KEY_MUTE''] boot)"]
  by (simp add: run_defs parse_defs connects_def boot_def samsung_def reachable_def)

text \<open>
  C3. For a Send token with key \<open>key\<close> whose socket connects, what is written is
  exactly the string \<^verbatim>\<open>SEND_ONCE <remote> <key>\<close> followed by CR and LF, once, on the
  socket the token opened. In a whole run no socket is written to twice, and every write
  is such a request line of a Send token of the run. (The witness is the run with remote
  \<^verbatim>\<open>samsung\<close> and key \<^verbatim>\<open>KEY_POWER\<close>.)
\<close>

theorem request_line:
  assumes "\<not> startsWith key DELAY_INDENTIFIER"
    and "connects cfg w (sockets s)"
    and "sendCommand cfg w key s = (r, s')"
    and "sendCommands cfg w keys s0 = (r0, s1)"
  shows
   "writes (new_events s s') =
      [(sockets s, ''SEND_ONCE '' @ remote cfg @ '' '' @ key @ [CHR 0x0D, CHR 0x0A])] \<and>
    distinct (map fst (writes (new_events s0 s1))) \<and>
    snd ` set (writes (new_events s0 s1)) \<subseteq>
      (\<lambda>key. ''SEND_ONCE '' @ remote cfg @ '' '' @ key @ [CHR 0x0D, CHR 0x0A]) `
        {key \<in> set keys. \<not> startsWith key DELAY_INDENTIFIER}"
proof (intro conjI)
  show "writes (new_events s s') =
      [(sockets s, ''SEND_ONCE '' @ remote cfg @ '' '' @ key @ [CHR 0x0D, CHR 0x0A])]"
    using sendCommand_send_footprint(3) [OF assms(1) assms(3)] assms(2)
    by (simp add: requestBody_def CRLF_def)
next
  have "map fst (writes (new_events s0 s1)) = filter (connects cfg w) [sockets s0..<sockets s1]"
    using sendCommands_numbered [OF assms(4)] unfolding numbered_def by blast
  then show "distinct (map fst (writes (new_events s0 s1)))"
    by simp
next
  have "snd ` set (writes (new_events s0 s1)) \<subseteq> request_lines cfg keys"
    using sendCommands_numbered [OF assms(4)] unfolding numbered_def by blast
  then show "snd ` set (writes (new_events s0 s1)) \<subseteq>
      (\<lambda>key. ''SEND_ONCE '' @ remote cfg @ '' '' @ key @ [CHR 0x0D, CHR 0x0A]) `
        {key \<in> set keys. \<not> startsWith key DELAY_INDENTIFIER}"
    by (simp add: request_lines_def requestBody_def CRLF_def)
qed

theorem request_line_witness:
  "\<not> startsWith ''KEY_POWER'' DELAY_INDENTIFIER \<and>
   connects samsung reachable (sockets boot) \<and>
   remote samsung = ''samsung'' \<and>
   writes (new_events boot (snd (sendCommand samsung reachable ''KEY_POWER'' boot))) =
     [(0, ''SEND_ONCE samsung KEY_POWER'' @ [CHR 0x0D, CHR 0x0A])] \<and>
   writes (new_events boot
     (snd (sendCommands samsung reachable [''KEY_POWER'', ''DELAY|250'', ''KEY_MUTE''] boot))) =
     [(0, ''SEND_ONCE samsung KEY_POWER'' @ [CHR 0x0D, CHR 0x0A]),
      (1, ''SEND_ONCE samsung KEY_MUTE'' @ [CHR 0x0D, CHR 0x0A])]"
  using
    request_line [of "''KEY_POWER''" samsung reachable boot Fulfilled
      "snd (sendCommand samsung reachable ''KEY_POWER'' boot)"
      "[''KEY_POWER'', ''DELAY|250'', ''KEY_MUTE'']" boot Fulfilled
      "snd (sendCommands samsung reachable [''KEY_POWER'', ''DELAY|250'', ''KEY_MUTE''] boot)"]
  by (simp add: run_defs parse_defs connects_def boot_def samsung_def reachable_def)

section \<open>Failure\<close>

text \<open>
  C1. Let the tokens before a Send token be fulfilled, and let the socket that the Send
  token opens report an error while the token is unsettled (it is refused, or it connects
  and fails before the settle timer has run). Then the run ends rejected with that error,
  in the state the failing token left: no token after it is processed, so the only
  socket opened from there on is the failing one, the only timer started from there on is
  at most the settle timer of the failing token, and the last thing the run did is log
  the error.
\<close>

theorem first_failure_aborts:
  assumes "sendCommands cfg w pre s = (Fulfilled, s1)"
    and "\<not> startsWith key DELAY_INDENTIFIER"
    and "connection_error cfg w s1 = Some error"
    and "sendCommands cfg w (pre @ key # post) s = (r, s2)"
  shows
   "r = Rejected (Socket_Error error) \<and>
    sendCommand cfg w key s1 = (r, s2) \<and>
    connections (new_events s1 s2) = [sockets s1] \<and>
    sockets s2 = Suc (sockets s1) \<and>
    timer_requests (new_events s1 s2) = (if connects cfg w (sockets s1) then [delay cfg] else []) \<and>
    last (trace s2) = (clock s2, Log (Error_Message (message error)))"
proof -
  obtain r' s' where token: "sendCommand cfg w key s1 = (r', s')"
    by (cases "sendCommand cfg w key s1")
  have rejected: "r' = Rejected (Socket_Error error)"
    and final: "last (trace s') = (clock s', Log (Error_Message (message error)))"
    using assms(2,3) token
    by - (rule sendCommand_cases [where key = key and w = w and s = s1 and cfg = cfg];
        auto simp: sendCommand_results connection_error_def connected_events_def)+
  have "sendCommands cfg w (pre @ key # post) s = sendCommands cfg w (key # post) s1"
    using assms(1) by (simp add: sendCommands_append then_promise_def)
  also have "\<dots> = (r', s')"
    using token rejected by (simp add: sendCommands_step)
  finally have same: "r = r'" "s2 = s'"
    using assms(4) by simp_all
  note footprint = sendCommand_send_footprint [OF assms(2) token]
  show ?thesis
    using rejected final token footprint unfolding same by simp
qed

theorem first_failure_aborts_witness:
  "sendCommands samsung third_refused [''KEY_1'', ''KEY_2''] boot =
     (Fulfilled, snd (sendCommands samsung third_refused [''KEY_1'', ''KEY_2''] boot)) \<and>
   \<not> startsWith ''KEY_3'' DELAY_INDENTIFIER \<and>
   connection_error samsung third_refused
     (snd (sendCommands samsung third_refused [''KEY_1'', ''KEY_2''] boot)) = Some ECONNREFUSED \<and>
   fst (sendCommands samsung third_refused
     [''KEY_1'', ''KEY_2'', ''KEY_3'', ''KEY_4'', ''KEY_5''] boot) =
     Rejected (Socket_Error ECONNREFUSED) \<and>
   connections (trace (snd (sendCommands samsung third_refused
     [''KEY_1'', ''KEY_2'', ''KEY_3'', ''KEY_4'', ''KEY_5''] boot))) = [0, 1, 2] \<and>
   timer_requests (trace (snd (sendCommands samsung third_refused
     [''KEY_1'', ''KEY_2'', ''KEY_3'', ''KEY_4'', ''KEY_5''] boot))) = [Some 100, Some 100]"
  using
    first_failure_aborts [of samsung third_refused "[''KEY_1'', ''KEY_2'']" boot
      "snd (sendCommands samsung third_refused [''KEY_1'', ''KEY_2''] boot)"
      "''KEY_3''" ECONNREFUSED "[''KEY_4'', ''KEY_5'']"
      "fst (sendCommands samsung third_refused
         [''KEY_1'', ''KEY_2'', ''KEY_3'', ''KEY_4'', ''KEY_5''] boot)"
      "snd (sendCommands samsung third_refused
         [''KEY_1'', ''KEY_2'', ''KEY_3'', ''KEY_4'', ''KEY_5''] boot)"]
  by (simp add: run_defs connection_error_def boot_def samsung_def third_refused_def)

lemma blamed_step:
  assumes "sendCommand cfg w key s = (r, s')"
  shows "blamed cfg w s s' r"
  using assms
  by - (rule sendCommand_cases [where key = key and w = w and s = s and cfg = cfg];
      auto simp: sendCommand_results blamed_def emitted_error_def connected_events_def)

lemma sendCommands_blamed:
  assumes "sendCommands cfg w keys s = (r, s')"
  shows "blamed cfg w s s' r"
  using assms
proof (rule run_induct [where P = "\<lambda>s r s'. blamed cfg w s s' r"])
  show "blamed cfg w s s Fulfilled" for s
    by (simp add: blamed_def)
  show "blamed cfg w s s' r" if "sendCommand cfg w key s = (r, s')" for key s r s'
    using that by (rule blamed_step)
  show "blamed cfg w s s2 r" if "blamed cfg w s s1 Fulfilled" "blamed cfg w s1 s2 r"
    for s s1 r s2
    using that by (auto simp: blamed_def split: outcome.splits error.splits)
qed

text \<open>With a port that is not legal no error is ever logged.\<close>

lemma sendCommand_unlogged:
  assumes "\<not> isLegalPort (port cfg)" and "sendCommand cfg w key s = (r, s')"
  shows "error_lines (new_events s s') = []"
  using assms
  by - (rule sendCommand_cases [where key = key and w = w and s = s and cfg = cfg];
      auto simp: sendCommand_results new_events_def)

lemma sendCommands_unlogged:
  assumes "\<not> isLegalPort (port cfg)" and "sendCommands cfg w keys s = (r, s')"
  shows "error_lines (new_events s s') = []"
proof -
  have "trace s' = trace s @ new_events s s' \<and> error_lines (new_events s s') = []"
    using assms(2)
  proof (rule run_induct [where P = "\<lambda>s r s'. trace s' = trace s @ new_events s s' \<and>
      error_lines (new_events s s') = []"])
    show "trace s = trace s @ new_events s s \<and> error_lines (new_events s s) = []"
      for s :: state
      by (simp add: new_events_same)
    show "trace s' = trace s @ new_events s s' \<and> error_lines (new_events s s') = []"
      if "sendCommand cfg w key s = (r, s')" for key s r s'
      using sendCommand_extends [OF that] sendCommand_unlogged [OF assms(1) that] by blast
    show "trace s2 = trace s @ new_events s s2 \<and> error_lines (new_events s s2) = []"
      if "trace s1 = trace s @ new_events s s1 \<and> error_lines (new_events s s1) = []"
        "trace s2 = trace s1 @ new_events s1 s2 \<and> error_lines (new_events s1 s2) = []"
      for s s1 s2 :: state
    proof -
      from that have ext1: "trace s1 = trace s @ new_events s s1"
        and ext2: "trace s2 = trace s1 @ new_events s1 s2"
        by blast+
      note new = new_events_trans(1) [OF ext1 ext2] and ext = new_events_trans(2) [OF ext1 ext2]
      have "error_lines (new_events s s2) = []"
        unfolding new using that by (simp add: error_lines_append)
      with ext show ?thesis by blast
    qed
  qed
  then show ?thesis by blast
qed

lemma send_outcome_any_key:
  assumes "\<not> startsWith key DELAY_INDENTIFIER" and "\<not> startsWith key' DELAY_INDENTIFIER"
  shows "fst (sendCommand cfg w key s) = fst (sendCommand cfg w key' s)"
  using assms
  by - (rule sendCommand_cases [where key = key and w = w and s = s and cfg = cfg];
      simp add: sendCommand_results)

text \<open>
  C5, as the code has it. When a run is rejected, its terminal result is the error that
  the transport produced, as it is. Either it is the error object that the failing socket
  emitted, and the last thing the run did was to log its message; or the port is not
  legal, it is the error that \<^verbatim>\<open>net.connect\<close> threw, the last thing the run did was that
  call, and nothing was logged. It is not wrapped, and nothing of the token goes into it:
  the outcome of a Send token does not depend on its key at all.
\<close>

theorem rejection_is_transport_error:
  assumes "sendCommands cfg w keys s = (Rejected error, s')"
    and "\<not> startsWith key DELAY_INDENTIFIER" and "\<not> startsWith key' DELAY_INDENTIFIER"
  shows
   "sockets s < sockets s' \<and>
    (case error of
       Socket_Error emitted \<Rightarrow>
         isLegalPort (port cfg) \<and>
         emitted_error (socket_fate w (sockets s' - 1)) = Some emitted \<and>
         last (trace s') = (clock s', Log (Error_Message (message emitted)))
     | Bad_Port p \<Rightarrow>
         \<not> isLegalPort (port cfg) \<and>
         p = port cfg \<and>
         last (trace s') = (clock s', NetConnect (sockets s' - 1) (host cfg) (port cfg)) \<and>
         error_lines (new_events s s') = []) \<and>
    fst (sendCommand cfg w key s0) = fst (sendCommand cfg w key' s0)"
proof -
  have blame: "blamed cfg w s s' (Rejected error)"
    using assms(1) by (rule sendCommands_blamed)
  have quiet: "error_lines (new_events s s') = []" if "\<not> isLegalPort (port cfg)"
    using that assms(1) by (rule sendCommands_unlogged)
  show ?thesis
    using blame quiet send_outcome_any_key [OF assms(2,3), of cfg w s0]
    by (cases error) (simp_all add: blamed_def)
qed

theorem rejection_is_transport_error_witness:
  "sendCommands samsung unreachable [''KEY_POWER''] boot =
     (Rejected (Socket_Error ECONNREFUSED),
      \<lparr>clock = 5, sockets = 1, timers = 0,
        trace = [(0, NetConnect 0 ''127.0.0.1'' 8765),
                 (5, Log (Error_Message ''connect ECONNREFUSED 127.0.0.1:8765''))],
        stray = []\<rparr>) \<and>
   \<not> startsWith ''KEY_POWER'' DELAY_INDENTIFIER \<and>
   \<not> startsWith ''KEY_MUTE'' DELAY_INDENTIFIER \<and>
   isLegalPort (port samsung) \<and>
   emitted_error (socket_fate unreachable 0) = Some ECONNREFUSED \<and>
   fst (sendCommand samsung unreachable ''KEY_POWER'' boot) =
     fst (sendCommand samsung unreachable ''KEY_MUTE'' boot) \<and>
   sendCommands misconfigured reachable [''DELAY|250'', ''KEY_POWER'', ''KEY_MUTE''] boot =
     (Rejected (Bad_Port 65536),
      \<lparr>clock = 250, sockets = 1, timers = 1,
        trace = [(0, Log (Info_Delaying (Some 250))),
                 (0, SetTimeout 0 (Some 250)),
                 (250, NetConnect 0 ''127.0.0.1'' 65536)],
        stray = []\<rparr>) \<and>
   \<not> isLegalPort (port misconfigured)"
  using
    rejection_is_transport_error [of samsung unreachable "[''KEY_POWER'']" boot
      "Socket_Error ECONNREFUSED"
      "snd (sendCommands samsung unreachable [''KEY_POWER''] boot)"
      "''KEY_POWER''" "''KEY_MUTE''" boot]
    rejection_is_transport_error [of misconfigured reachable
      "[''DELAY|250'', ''KEY_POWER'', ''KEY_MUTE'']" boot
      "Bad_Port 65536"
      "snd (sendCommands misconfigured reachable
         [''DELAY|250'', ''KEY_POWER'', ''KEY_MUTE''] boot)"
      "''KEY_POWER''" "''KEY_MUTE''" boot]
  by (simp add: run_defs parse_defs emitted_error_def boot_def samsung_def unreachable_def
      reachable_def misconfigured_def ECONNREFUSED_def)

text \<open>
  C5, as stated, fails: the error of a failing run does not identify the offending key.
  Against a daemon that is down, the run of \<^verbatim>\<open>KEY_POWER\<close> and the run of
  \<^verbatim>\<open>KEY_MUTE\<close> end with the same error and in the same state, log included.
\<close>

theorem error_names_no_token_counterexample:
  "sendCommands samsung unreachable [''KEY_POWER''] boot =
     sendCommands samsung unreachable [''KEY_MUTE''] boot \<and>
   fst (sendCommands samsung unreachable [''KEY_MUTE''] boot) =
     Rejected (Socket_Error ECONNREFUSED) \<and>
   ''KEY_POWER'' \<noteq> ''KEY_MUTE''"
  by (simp add: run_defs boot_def samsung_def unreachable_def)

section \<open>Delay or Send\<close>

lemma startsWith_take: "startsWith s p \<longleftrightarrow> take (length p) s = p"
  by (induction s p rule: startsWith.induct) auto

lemma parseInt_decimal:
  "\<not> hex_prefixed inputString \<Longrightarrow> parseInt inputString 0 = parseInt inputString 10"
  by (simp add: parseInt_def hex_prefixed_def Let_def)

text \<open>
  C4, as the code has it. A key is run as a delay if and only if it starts with the six
  characters \<^verbatim>\<open>DELAY|\<close>: then no socket is opened, nothing is written, and one timer
  is started whose delay is \<^verbatim>\<open>parseInt\<close>, called without a radix, of the rest of the
  key. That is the base-10 reading of the rest unless the rest is hexadecimal for
  \<^verbatim>\<open>parseInt\<close> (a \<^verbatim>\<open>0x\<close> or \<^verbatim>\<open>0X\<close> after white space and sign). Every other
  key is run as a Send: one socket is opened, and the request written on it, if it
  connects, holds the whole key.
\<close>

theorem delay_iff_prefix:
  assumes "sendCommand cfg w key s = (r, s')"
  shows
   "(startsWith key DELAY_INDENTIFIER \<longleftrightarrow> take 6 key = ''DELAY|'') \<and>
    (startsWith key DELAY_INDENTIFIER \<longleftrightarrow> connections (new_events s s') = []) \<and>
    (startsWith key DELAY_INDENTIFIER \<longrightarrow>
       timer_requests (new_events s s') = [parseInt (drop 6 key) 0] \<and>
       writes (new_events s s') = [] \<and>
       (\<not> hex_prefixed (drop 6 key) \<longrightarrow> parseInt (drop 6 key) 0 = parseInt (drop 6 key) 10)) \<and>
    (\<not> startsWith key DELAY_INDENTIFIER \<longrightarrow>
       connections (new_events s s') = [sockets s] \<and>
       writes (new_events s s') =
         (if connects cfg w (sockets s) then [(sockets s, requestBody cfg key @ CRLF)] else []))"
proof -
  have "startsWith key DELAY_INDENTIFIER \<longleftrightarrow> take 6 key = DELAY_INDENTIFIER"
    by (simp only: startsWith_take length_DELAY)
  moreover have "take 6 key = DELAY_INDENTIFIER \<longleftrightarrow> take 6 key = ''DELAY|''"
    by (simp only: DELAY_INDENTIFIER_def)
  ultimately have literal: "startsWith key DELAY_INDENTIFIER \<longleftrightarrow> take 6 key = ''DELAY|''"
    by (rule trans)
  show ?thesis
  proof (cases "startsWith key DELAY_INDENTIFIER")
    case True
    note footprint = sendCommand_delay_footprint [OF True assms]
    show ?thesis
      using True footprint(3,4,5) literal by (simp add: parseInt_decimal)
  next
    case False
    note footprint = sendCommand_send_footprint [OF False assms]
    show ?thesis
      using False footprint(1,3) literal by simp
  qed
qed

theorem delay_iff_prefix_witness:
  "startsWith ''DELAY|250'' DELAY_INDENTIFIER \<and>
   \<not> hex_prefixed (drop 6 ''DELAY|250'') \<and>
   parseInt (drop 6 ''DELAY|250'') 10 = Some 250 \<and>
   timer_requests (new_events boot (snd (sendCommand samsung reachable ''DELAY|250'' boot))) =
     [Some 250] \<and>
   connections (new_events boot (snd (sendCommand samsung reachable ''DELAY|250'' boot))) = [] \<and>
   \<not> startsWith ''delay|250'' DELAY_INDENTIFIER \<and>
   connections (new_events boot (snd (sendCommand samsung reachable ''delay|250'' boot))) = [0] \<and>
   writes (new_events boot (snd (sendCommand samsung reachable ''delay|250'' boot))) =
     [(0, ''SEND_ONCE samsung delay|250'' @ [CHR 0x0D, CHR 0x0A])]"
  using
    delay_iff_prefix [of samsung reachable "''DELAY|250''" boot Fulfilled
      "snd (sendCommand samsung reachable ''DELAY|250'' boot)"]
    delay_iff_prefix [of samsung reachable "''delay|250''" boot Fulfilled
      "snd (sendCommand samsung reachable ''delay|250'' boot)"]
  by (simp add: run_defs parse_defs hex_prefixed_def connects_def boot_def samsung_def
      reachable_def)

text \<open>
  C4, as stated, fails on the base: the rest of \<^verbatim>\<open>DELAY|0x10\<close> is read as
  hexadecimal, so the timer is started with 16 and the token waits 16 ms, where the
  base-10 reading of \<^verbatim>\<open>0x10\<close> stops after the \<^verbatim>\<open>0\<close>.
\<close>

theorem delay_base10_counterexample:
  "startsWith ''DELAY|0x10'' DELAY_INDENTIFIER \<and>
   timer_requests (new_events boot (snd (sendCommand samsung reachable ''DELAY|0x10'' boot))) =
     [Some 16] \<and>
   parseInt (drop 6 ''DELAY|0x10'') 10 = Some 0 \<and>
   clock (snd (sendCommand samsung reachable ''DELAY|0x10'' boot)) = 16"
  by (simp add: run_defs parse_defs boot_def samsung_def reachable_def)

section \<open>Order and timing\<close>

lemma kept_append:
  "kept due q (xs @ ys) \<longleftrightarrow>
     kept due q xs \<and> kept due q ys \<and>
     (\<forall>x \<in> set xs. \<forall>deadline. due x = Some deadline \<longrightarrow>
        (\<forall>y \<in> set ys. q (snd y) \<longrightarrow> deadline \<le> fst y))"
  by (induction xs) (auto simp: list_all_iff split: option.splits)

lemma paced_refl: "paced due q s Fulfilled s"
  by (simp add: paced_def new_events_same)

lemma paced_trans:
  assumes "paced due q s Fulfilled s1" and "paced due q s1 r s2"
  shows "paced due q s r s2"
proof -
  have ext1: "trace s1 = trace s @ new_events s s1"
    and ext2: "trace s2 = trace s1 @ new_events s1 s2"
    using assms unfolding paced_def by blast+
  note new = new_events_trans(1) [OF ext1 ext2] and ext = new_events_trans(2) [OF ext1 ext2]
  have clocks: "clock s \<le> clock s1" "clock s1 \<le> clock s2"
    using assms unfolding paced_def by blast+
  have first: "kept due q (new_events s s1)"
    and over1: "\<And>x deadline. x \<in> set (new_events s s1) \<Longrightarrow> due x = Some deadline \<Longrightarrow>
      deadline \<le> clock s1"
    and after1: "\<And>y. y \<in> set (new_events s s1) \<Longrightarrow> clock s \<le> fst y"
    using assms(1) unfolding paced_def by blast+
  have second: "kept due q (new_events s1 s2)"
    and after2: "\<And>y. y \<in> set (new_events s1 s2) \<Longrightarrow> clock s1 \<le> fst y"
    and over2: "\<And>x deadline. r = Fulfilled \<Longrightarrow> x \<in> set (new_events s1 s2) \<Longrightarrow>
      due x = Some deadline \<Longrightarrow> deadline \<le> clock s2"
    using assms(2) unfolding paced_def by blast+
  have "kept due q (new_events s s2)"
    unfolding new kept_append
    using first second over1 after2 by (meson le_trans)
  moreover have "\<forall>y \<in> set (new_events s s2). clock s \<le> fst y"
    unfolding new using after1 after2 clocks(1) by (auto intro: le_trans)
  moreover have "r = Fulfilled \<longrightarrow>
      (\<forall>x \<in> set (new_events s s2). \<forall>deadline. due x = Some deadline \<longrightarrow> deadline \<le> clock s2)"
    unfolding new using over1 over2 clocks(2) by (auto intro: le_trans)
  ultimately show ?thesis
    using ext clocks unfolding paced_def by simp
qed

lemma sendCommands_paced:
  assumes step: "\<And>key s r s'. sendCommand cfg w key s = (r, s') \<Longrightarrow> paced due q s r s'"
    and run: "sendCommands cfg w keys s = (r, s')"
  shows "paced due q s r s'"
  using run
  by (rule run_induct [where P = "paced due q"])
     (auto intro: paced_refl paced_trans step)

lemma callback_after_le:
  "loop_age w timer \<le> a \<Longrightarrow> timer_after d - a \<le> callback_after w timer d"
  by (simp add: callback_after_def le_diff_conv)

lemma timers_paced:
  assumes "sendCommand cfg w key s = (r, s')"
  shows "paced (timer_due (callback_after w)) begins s r s'"
  using assms
  by - (rule sendCommand_cases [where key = key and w = w and s = s and cfg = cfg];
      auto simp: sendCommand_results paced_def new_events_def connected_events_def
        timer_due_def)

lemma writes_paced:
  assumes "stale_by w a" and "sendCommand cfg w key s = (r, s')"
  shows "paced (write_due (timer_after (delay cfg) - a)) token_first s r s'"
proof -
  have "timer_after (delay cfg) - a \<le> callback_after w (timers s) (delay cfg)"
    using assms(1) by (intro callback_after_le) (simp add: stale_by_def)
  with assms(2) show ?thesis
    by - (rule sendCommand_cases [where key = key and w = w and s = s and cfg = cfg];
        auto simp: sendCommand_results paced_def new_events_def connected_events_def
          write_due_def)
qed

lemma issued_append: "issued (tr @ tr') = issued tr @ issued tr'"
  by (induction tr rule: issued.induct) simp_all

lemma issued_step:
  assumes "sendCommand cfg w key s = (r, s')"
  shows "issued (new_events s s') = [token_deed cfg key] \<or>
    r \<noteq> Fulfilled \<and> issued (new_events s s') = []"
  using assms
  by - (rule sendCommand_cases [where key = key and w = w and s = s and cfg = cfg];
      auto simp: sendCommand_results new_events_def connected_events_def token_deed_def)

lemma issued_run:
  assumes "sendCommands cfg w keys s = (r, s')"
  shows "\<exists>n \<le> length keys. issued (new_events s s') = map (token_deed cfg) (take n keys) \<and>
    (r = Fulfilled \<longrightarrow> n = length keys)"
  using assms
proof (induction keys arbitrary: s)
  case Nil
  then show ?case
    by (simp add: sendCommands_Nil Promise_resolve_def new_events_same)
next
  case (Cons key keys)
  obtain r1 s1 where head: "sendCommand cfg w key s = (r1, s1)"
    by (cases "sendCommand cfg w key s")
  note first = issued_step [OF head]
  show ?case
  proof (cases "r1 = Fulfilled")
    case True
    with head Cons.prems have rest: "sendCommands cfg w keys s1 = (r, s')"
      by (simp add: sendCommands_step)
    from Cons.IH [OF rest] obtain n where n: "n \<le> length keys"
      "issued (new_events s1 s') = map (token_deed cfg) (take n keys)"
      "r = Fulfilled \<longrightarrow> n = length keys"
      by blast
    have "new_events s s' = new_events s s1 @ new_events s1 s'"
      using sendCommand_extends [OF head] sendCommands_extends [OF rest]
      by (rule new_events_trans)
    then have "issued (new_events s s') = map (token_deed cfg) (take (Suc n) (key # keys))"
      using first True n(2) by (simp add: issued_append)
    with n(1,3) show ?thesis
      by (intro exI [of _ "Suc n"]) simp
  next
    case False
    with head Cons.prems have "r = r1" "s' = s1"
      by (cases r1; simp add: sendCommands_step)+
    with first False show ?thesis
      by (auto intro: exI [of _ "Suc 0"] exI [of _ 0])
  qed
qed

lemma issued_prefix:
  assumes "sendCommands cfg w keys s = (r, s')"
  shows "issued (new_events s s') =
      take (length (issued (new_events s s'))) (map (token_deed cfg) keys)"
    and "r = Fulfilled \<Longrightarrow> issued (new_events s s') = map (token_deed cfg) keys"
proof -
  from issued_run [OF assms] obtain n where n: "n \<le> length keys"
    "issued (new_events s s') = map (token_deed cfg) (take n keys)"
    "r = Fulfilled \<longrightarrow> n = length keys"
    by blast
  from n(1,2) show "issued (new_events s s') =
      take (length (issued (new_events s s'))) (map (token_deed cfg) keys)"
    by (simp add: take_map)
  from n(2,3) show "issued (new_events s s') = map (token_deed cfg) keys" if "r = Fulfilled"
    using that by simp
qed

lemma kept_mono:
  assumes "kept due q tr"
    and "\<And>x t. x \<in> set tr \<Longrightarrow> due' x = Some t \<Longrightarrow> \<exists>t'. due x = Some t' \<and> t \<le> t'"
  shows "kept due' q tr"
  using assms
proof (induction tr)
  case Nil
  show ?case by simp
next
  case (Cons x tr)
  have rest: "kept due' q tr"
    using Cons.prems by (intro Cons.IH) auto
  show ?case
  proof (cases "due' x")
    case None
    with rest show ?thesis by simp
  next
    case (Some t)
    then obtain t' where t': "due x = Some t'" "t \<le> t'"
      using Cons.prems(2) [of x t] by auto
    with Cons.prems(1) have "list_all (\<lambda>y. q (snd y) \<longrightarrow> t' \<le> fst y) tr"
      by simp
    with t'(2) have "list_all (\<lambda>y. q (snd y) \<longrightarrow> t \<le> fst y) tr"
      by (auto simp: list_all_iff)
    with Some rest show ?thesis by simp
  qed
qed

lemma requested_le_timer:
  "requested_ms d \<le> nat TIMEOUT_MAX \<Longrightarrow> requested_ms d \<le> timer_after d"
  by (cases d) (auto simp: requested_ms_def timer_after_def)

lemma timer_requests_member:
  "(t, SetTimeout timer d) \<in> set tr \<Longrightarrow> d \<in> set (timer_requests tr)"
  by (induction tr rule: timer_requests.induct) auto

lemma waits_kept_requested:
  assumes "waits_kept (callback_after w) tr"
    and "stale_by w a"
    and "list_all (\<lambda>d. requested_ms d \<le> nat TIMEOUT_MAX) (timer_requests tr)"
  shows "waits_kept (\<lambda>timer d. requested_ms d - a) tr"
  unfolding waits_kept_def
proof (rule kept_mono)
  show "kept (timer_due (callback_after w)) begins tr"
    using assms(1) by (simp add: waits_kept_def)
  show "\<exists>t'. timer_due (callback_after w) x = Some t' \<and> t \<le> t'"
    if "x \<in> set tr" "timer_due (\<lambda>timer d. requested_ms d - a) x = Some t" for x t
  proof -
    obtain at e where x: "x = (at, e)" by (cases x)
    from that(2) x obtain timer d where e: "e = SetTimeout timer d"
      "t = at + (requested_ms d - a)"
      by (cases e) (auto simp: timer_due_def)
    with that(1) x have "d \<in> set (timer_requests tr)"
      by (auto intro: timer_requests_member)
    with assms(3) have "requested_ms d \<le> timer_after d"
      by (auto simp: list_all_iff intro: requested_le_timer)
    then have "requested_ms d - a \<le> timer_after d - a"
      by (rule diff_le_mono)
    also have "\<dots> \<le> callback_after w timer d"
      using assms(2) by (intro callback_after_le) (simp add: stale_by_def)
    finally show ?thesis
      using x e by (simp add: timer_due_def)
  qed
qed

lemma settle_kept_requested:
  assumes "settle_kept (timer_after d - a) tr" and "requested_ms d \<le> nat TIMEOUT_MAX"
  shows "settle_kept (requested_ms d - a) tr"
  unfolding settle_kept_def
proof (rule kept_mono)
  show "kept (write_due (timer_after d - a)) token_first tr"
    using assms(1) by (simp add: settle_kept_def)
  show "\<exists>t'. write_due (timer_after d - a) x = Some t' \<and> t \<le> t'"
    if "write_due (requested_ms d - a) x = Some t" for x t
    using that diff_le_mono [OF requested_le_timer [OF assms(2)], of a]
    by (cases "snd x") (auto simp: write_due_def)
qed

text \<open>The settle timer is started in the turn of the write.\<close>

lemma settled_at_append: "settled_at d t client tr \<Longrightarrow> settled_at d t client (tr @ tr')"
  by (induction d t client tr rule: settled_at.induct) simp_all

lemma settle_started_append:
  "settle_started d tr \<Longrightarrow> settle_started d tr' \<Longrightarrow> settle_started d (tr @ tr')"
  by (induction d tr rule: settle_started.induct) (simp_all add: settled_at_append)

lemma settle_started_step:
  assumes "sendCommand cfg w key s = (r, s')"
  shows "settle_started (delay cfg) (new_events s s')"
  using assms
  by - (rule sendCommand_cases [where key = key and w = w and s = s and cfg = cfg];
      auto simp: sendCommand_results new_events_def connected_events_def)

lemma settle_started_run:
  assumes "sendCommands cfg w keys s = (r, s')"
  shows "settle_started (delay cfg) (new_events s s')"
proof -
  have "trace s' = trace s @ new_events s s' \<and> settle_started (delay cfg) (new_events s s')"
    using assms
  proof (rule run_induct [where P = "\<lambda>s r s'. trace s' = trace s @ new_events s s' \<and>
      settle_started (delay cfg) (new_events s s')"])
    show "trace s = trace s @ new_events s s \<and> settle_started (delay cfg) (new_events s s)"
      for s :: state
      by (simp add: new_events_same)
    show "trace s' = trace s @ new_events s s' \<and> settle_started (delay cfg) (new_events s s')"
      if "sendCommand cfg w key s = (r, s')" for key s r s'
      using sendCommand_extends [OF that] settle_started_step [OF that] by blast
    show "trace s2 = trace s @ new_events s s2 \<and> settle_started (delay cfg) (new_events s s2)"
      if "trace s1 = trace s @ new_events s s1 \<and> settle_started (delay cfg) (new_events s s1)"
        "trace s2 = trace s1 @ new_events s1 s2 \<and>
          settle_started (delay cfg) (new_events s1 s2)"
      for s s1 s2 :: state
    proof -
      from that have ext1: "trace s1 = trace s @ new_events s s1"
        and ext2: "trace s2 = trace s1 @ new_events s1 s2"
        by blast+
      note new = new_events_trans(1) [OF ext1 ext2] and ext = new_events_trans(2) [OF ext1 ext2]
      have "settle_started (delay cfg) (new_events s s2)"
        unfolding new using that by (blast intro: settle_started_append)
      with ext show ?thesis by blast
    qed
  qed
  then show ?thesis by blast
qed

text \<open>
  C2, as the code has it. The tokens of a run are executed in list order: the delays
  logged and the requests written are, in order, those of the keys (of all keys when the
  run is fulfilled, of a first part of them otherwise). And after a token has started its
  timer, nothing of a later token begins (no connection is opened, no timer is started)
  before the callback of that timer has run. The callback runs when the wait has passed
  since the event loop's cached time, not since the start of the timer: in a run whose
  waits are at most 2^31 - 1 ms, with a cached time that is never older than \<open>a\<close> ms,
  a later token begins at least the wait less \<open>a\<close> ms after the timer was started.
\<close>

theorem in_order_and_paced:
  assumes "sendCommands cfg w keys s = (r, s')"
  shows
   "issued (new_events s s') =
      take (length (issued (new_events s s'))) (map (token_deed cfg) keys) \<and>
    (r = Fulfilled \<longrightarrow> issued (new_events s s') = map (token_deed cfg) keys) \<and>
    waits_kept (callback_after w) (new_events s s') \<and>
    (stale_by w a \<and>
     list_all (\<lambda>d. requested_ms d \<le> nat TIMEOUT_MAX) (timer_requests (new_events s s')) \<longrightarrow>
       waits_kept (\<lambda>timer d. requested_ms d - a) (new_events s s'))"
proof -
  have "paced (timer_due (callback_after w)) begins s r s'"
    using timers_paced assms by (rule sendCommands_paced)
  then have "waits_kept (callback_after w) (new_events s s')"
    by (simp add: paced_def waits_kept_def)
  then show ?thesis
    using issued_prefix [OF assms] by (simp add: waits_kept_requested)
qed

theorem in_order_and_paced_witness:
  "sendCommands samsung stale [''KEY_POWER'', ''DELAY|250'', ''KEY_MUTE''] boot =
     (Fulfilled,
      \<lparr>clock = 453, sockets = 2, timers = 3,
        trace =
          [(0, NetConnect 0 ''127.0.0.1'' 8765),
           (3, Log (Info_Sending ''SEND_ONCE samsung KEY_POWER'')),
           (3, SocketWrite 0 (''SEND_ONCE samsung KEY_POWER'' @ [CHR 0x0D, CHR 0x0A])),
           (3, SocketEnd 0),
           (3, SetTimeout 0 (Some 100)),
           (102, Log (Info_Delaying (Some 250))),
           (102, SetTimeout 1 (Some 250)),
           (351, NetConnect 1 ''127.0.0.1'' 8765),
           (354, Log (Info_Sending ''SEND_ONCE samsung KEY_MUTE'')),
           (354, SocketWrite 1 (''SEND_ONCE samsung KEY_MUTE'' @ [CHR 0x0D, CHR 0x0A])),
           (354, SocketEnd 1),
           (354, SetTimeout 2 (Some 100))],
        stray = []\<rparr>) \<and>
   issued (new_events boot
     (snd (sendCommands samsung stale [''KEY_POWER'', ''DELAY|250'', ''KEY_MUTE''] boot))) =
     [Sent (''SEND_ONCE samsung KEY_POWER'' @ [CHR 0x0D, CHR 0x0A]),
      Delayed (Some 250),
      Sent (''SEND_ONCE samsung KEY_MUTE'' @ [CHR 0x0D, CHR 0x0A])] \<and>
   stale_by stale 1 \<and>
   list_all (\<lambda>d. requested_ms d \<le> nat TIMEOUT_MAX) (timer_requests (new_events boot
     (snd (sendCommands samsung stale [''KEY_POWER'', ''DELAY|250'', ''KEY_MUTE''] boot)))) \<and>
   waits_kept (\<lambda>timer d. requested_ms d - 1) (new_events boot
     (snd (sendCommands samsung stale [''KEY_POWER'', ''DELAY|250'', ''KEY_MUTE''] boot)))"
  using
    in_order_and_paced [of samsung stale "[''KEY_POWER'', ''DELAY|250'', ''KEY_MUTE'']" boot
      "fst (sendCommands samsung stale [''KEY_POWER'', ''DELAY|250'', ''KEY_MUTE''] boot)"
      "snd (sendCommands samsung stale [''KEY_POWER'', ''DELAY|250'', ''KEY_MUTE''] boot)" 1]
  by (simp add: run_defs parse_defs token_deed_def boot_def samsung_def reachable_def
      stale_def stale_by_def requested_ms_def)

text \<open>
  C2, as stated, fails: a timer that is started at a cached time 1 ms old runs 1 ms
  before its wait has passed. After \<^verbatim>\<open>DELAY|100\<close>, started at time 0, the connection
  of the next token is opened at time 99.
\<close>

theorem early_timer_counterexample:
  "trace (snd (sendCommands samsung stale [''DELAY|100'', ''KEY_POWER''] boot)) =
     [(0, Log (Info_Delaying (Some 100))),
      (0, SetTimeout 0 (Some 100)),
      (99, NetConnect 0 ''127.0.0.1'' 8765),
      (102, Log (Info_Sending ''SEND_ONCE samsung KEY_POWER'')),
      (102, SocketWrite 0 (''SEND_ONCE samsung KEY_POWER'' @ [CHR 0x0D, CHR 0x0A])),
      (102, SocketEnd 0),
      (102, SetTimeout 1 (Some 100))] \<and>
   \<not> waits_kept (\<lambda>timer. requested_ms) (new_events boot
     (snd (sendCommands samsung stale [''DELAY|100'', ''KEY_POWER''] boot)))"
  by (simp add: run_defs parse_defs waits_kept_def timer_due_def requested_ms_def boot_def
      samsung_def reachable_def stale_def)

text \<open>
  C7, as the code has it. The settle timer is started with the configured delay in the
  turn of the write, right after the end of the socket (not when the socket is closed),
  and the next token does not begin before the callback of that timer has run. The
  callback runs when the delay has passed since the event loop's cached time, not since
  the write: with a delay of at most 2^31 - 1 ms and a cached time that is never older
  than \<open>a\<close> ms, at least the delay less \<open>a\<close> ms pass between a write and the
  beginning of the next token; with a delay of 100, at least 100 less \<open>a\<close> ms.
\<close>

theorem settle_delay_kept:
  assumes "sendCommands cfg w keys s = (r, s')"
  shows
   "settle_started (delay cfg) (new_events s s') \<and>
    waits_kept (callback_after w) (new_events s s') \<and>
    (stale_by w a \<and> requested_ms (delay cfg) \<le> nat TIMEOUT_MAX \<longrightarrow>
       settle_kept (requested_ms (delay cfg) - a) (new_events s s')) \<and>
    (stale_by w a \<and> delay cfg = Some 100 \<longrightarrow> settle_kept (100 - a) (new_events s s'))"
proof -
  have "paced (timer_due (callback_after w)) begins s r s'"
    using timers_paced assms by (rule sendCommands_paced)
  then have timers: "waits_kept (callback_after w) (new_events s s')"
    by (simp add: paced_def waits_kept_def)
  have kept: "settle_kept (timer_after (delay cfg) - a) (new_events s s')" if "stale_by w a"
  proof -
    have "paced (write_due (timer_after (delay cfg) - a)) token_first s r s'"
      using writes_paced [OF that] assms by (rule sendCommands_paced)
    then show ?thesis
      by (simp add: paced_def settle_kept_def)
  qed
  have "timer_after (delay cfg) = 100" if "delay cfg = Some 100"
    using that by (simp add: timer_after_def TIMEOUT_MAX_def)
  with kept timers settle_started_run [OF assms]
    settle_kept_requested [of "delay cfg" a "new_events s s'"]
  show ?thesis by auto
qed

theorem settle_delay_kept_witness:
  "delay samsung = Some 100 \<and>
   stale_by stale 1 \<and>
   requested_ms (delay samsung) \<le> nat TIMEOUT_MAX \<and>
   sendCommands samsung stale [''KEY_POWER'', ''KEY_MUTE''] boot =
     (Fulfilled,
      \<lparr>clock = 204, sockets = 2, timers = 2,
        trace =
          [(0, NetConnect 0 ''127.0.0.1'' 8765),
           (3, Log (Info_Sending ''SEND_ONCE samsung KEY_POWER'')),
           (3, SocketWrite 0 (''SEND_ONCE samsung KEY_POWER'' @ [CHR 0x0D, CHR 0x0A])),
           (3, SocketEnd 0),
           (3, SetTimeout 0 (Some 100)),
           (102, NetConnect 1 ''127.0.0.1'' 8765),
           (105, Log (Info_Sending ''SEND_ONCE samsung KEY_MUTE'')),
           (105, SocketWrite 1 (''SEND_ONCE samsung KEY_MUTE'' @ [CHR 0x0D, CHR 0x0A])),
           (105, SocketEnd 1),
           (105, SetTimeout 1 (Some 100))],
        stray = []\<rparr>) \<and>
   settle_started (Some 100) (new_events boot
     (snd (sendCommands samsung stale [''KEY_POWER'', ''KEY_MUTE''] boot))) \<and>
   settle_kept 99 (new_events boot
     (snd (sendCommands samsung stale [''KEY_POWER'', ''KEY_MUTE''] boot)))"
  using
    settle_delay_kept [of samsung stale "[''KEY_POWER'', ''KEY_MUTE'']" boot
      "fst (sendCommands samsung stale [''KEY_POWER'', ''KEY_MUTE''] boot)"
      "snd (sendCommands samsung stale [''KEY_POWER'', ''KEY_MUTE''] boot)" 1]
  by (simp add: run_defs boot_def samsung_def reachable_def stale_def stale_by_def
      requested_ms_def)

text \<open>
  C7, as stated, fails: with a settle delay of 100 and timers started at a cached time
  1 ms old, the second of two Send tokens opens its connection at time 102, 99 ms after
  the first request was written at time 3.
\<close>

theorem early_settle_counterexample:
  "delay samsung = Some 100 \<and>
   connections (trace (snd (sendCommands samsung stale [''KEY_POWER'', ''KEY_MUTE''] boot))) =
     [0, 1] \<and>
   \<not> settle_kept 100 (new_events boot
     (snd (sendCommands samsung stale [''KEY_POWER'', ''KEY_MUTE''] boot)))"
  by (simp add: run_defs settle_kept_def write_due_def boot_def samsung_def reachable_def
      stale_def)

end
